theory Spec2Isabelle
  imports Main
begin

section \<open>Data model of \<open>src/index.tsx\<close>\<close>

text \<open>
  The platform's device descriptor (\<open>MediaDeviceInfo\<close>) and the application's
  \<open>DeviceGroup\<close> interface. Both have fields called \<open>groupId\<close> and \<open>label\<close>;
  they are told apart by their qualified names.
\<close>

datatype MediaDeviceKind = audioinput | audiooutput | videoinput

record MediaDeviceInfo =
  deviceId :: string
  kind :: MediaDeviceKind
  groupId :: string
  label :: string

record DeviceGroup =
  groupId :: string
  video :: "MediaDeviceInfo option"
  audio :: "MediaDeviceInfo option"
  label :: string

text \<open>
  An awaited platform call either resolves with a value or rejects with an error, whose
  \<open>message\<close> is all the code reads.
\<close>

datatype 'a settled = Resolved 'a | Rejected string

section \<open>The object \<open>groups\<close> of \<open>initDevices\<close>\<close>

text \<open>
  \<open>groups\<close> is an object literal \<open>{}\<close> used as a dictionary from \<open>groupId\<close> to an array of
  descriptors. Its own properties are kept as an association list in creation order.
  Two rules of the language decide what the loop and \<open>Object.values\<close> do with it:

  \<^item> a read \<open>groups[k]\<close> of a key that is not an own property falls through to
    \<open>Object.prototype\<close>; for the names below it yields a function or object, which is
    truthy and has no \<open>push\<close>;
  \<^item> own property keys are enumerated with the array indices first, in ascending numeric
    order, and the other strings after them in creation order. An array index is the
    canonical decimal numeral of an integer below \<open>2^32 - 1\<close>.
\<close>

type_synonym groups = "(string \<times> MediaDeviceInfo list) list"

definition Object_prototype_keys :: "string list" where
  "Object_prototype_keys =
     [''constructor'', ''hasOwnProperty'', ''isPrototypeOf'', ''propertyIsEnumerable'',
      ''toLocaleString'', ''toString'', ''valueOf'', ''__proto__'',
      ''__defineGetter__'', ''__defineSetter__'', ''__lookupGetter__'', ''__lookupSetter__'']"

definition is_digit :: "char \<Rightarrow> bool" where
  "is_digit c = (48 \<le> (of_char c :: int) \<and> (of_char c :: int) \<le> 57)"

definition digit_value :: "char \<Rightarrow> int" where
  "digit_value c = of_char c - 48"

definition numeral_value :: "string \<Rightarrow> int" where
  "numeral_value s = foldl (\<lambda>n c. 10 * n + digit_value c) 0 s"

definition is_array_index :: "string \<Rightarrow> bool" where
  "is_array_index s =
     (s \<noteq> [] \<and> list_all is_digit s \<and> (length s = 1 \<or> hd s \<noteq> CHR ''0'')
      \<and> numeral_value s < 4294967295)"

text \<open>The values of the own properties, in the order \<open>Object.values\<close> yields them.\<close>

definition Object_values :: "groups \<Rightarrow> MediaDeviceInfo list list" where
  "Object_values groups =
     map snd (sort_key (\<lambda>p. numeral_value (fst p)) (filter (\<lambda>p. is_array_index (fst p)) groups)
              @ filter (\<lambda>p. \<not> is_array_index (fst p)) groups)"

text \<open>
  \<open>group.push(device)\<close> on the array stored under an existing key: the array is shared
  with the object, so the stored value grows and the key keeps its place.
\<close>

definition push_to :: "string \<Rightarrow> MediaDeviceInfo \<Rightarrow> groups \<Rightarrow> groups" where
  "push_to k device groups =
     map (\<lambda>p. if fst p = k then (fst p, snd p @ [device]) else p) groups"

text \<open>
  The loop of lines 32 to 37. A descriptor with an empty \<open>groupId\<close> is skipped. For a key
  that is an own property the descriptor is pushed to its array. For a new key the read
  \<open>groups[k] || []\<close> yields a fresh array unless \<open>k\<close> names a property of
  \<open>Object.prototype\<close>: then \<open>group\<close> is that inherited value and \<open>group.push\<close> throws
  a \<open>TypeError\<close>, which leaves the loop.
\<close>

fun group_devices :: "MediaDeviceInfo list \<Rightarrow> groups \<Rightarrow> groups settled" where
  "group_devices [] groups = Resolved groups"
| "group_devices (device # rest) groups =
     (if MediaDeviceInfo.groupId device = [] then group_devices rest groups
      else if MediaDeviceInfo.groupId device \<in> set (map fst groups)
        then group_devices rest (push_to (MediaDeviceInfo.groupId device) device groups)
      else if MediaDeviceInfo.groupId device \<in> set Object_prototype_keys
        then Rejected ''group.push is not a function''
      else group_devices rest (groups @ [(MediaDeviceInfo.groupId device, [device])]))"

text \<open>
  The callback of lines 41 to 53, as the list of groups it pushes to \<open>validGroups\<close> for
  one array: none or one.
\<close>

definition valid_group :: "MediaDeviceInfo list \<Rightarrow> DeviceGroup list" where
  "valid_group grp =
     (case (find (\<lambda>d. kind d = videoinput) grp, find (\<lambda>d. kind d = audioinput) grp) of
        (Some v, Some a) \<Rightarrow>
          [\<lparr>DeviceGroup.groupId = MediaDeviceInfo.groupId v,
            video = Some v,
            audio = Some a,
            DeviceGroup.label =
              (if MediaDeviceInfo.label v \<noteq> [] then MediaDeviceInfo.label v
               else ''Unknown Capture Device'')\<rparr>]
      | _ \<Rightarrow> [])"

definition validGroups :: "groups \<Rightarrow> DeviceGroup list" where
  "validGroups groups = concat (map valid_group (Object_values groups))"

text \<open>Lines 31 to 53: grouping from the empty object, then the valid groups.\<close>

definition discover :: "MediaDeviceInfo list \<Rightarrow> DeviceGroup list settled" where
  "discover allDevices =
     (case group_devices allDevices [] of
        Rejected m \<Rightarrow> Rejected m
      | Resolved groups \<Rightarrow> Resolved (validGroups groups))"

section \<open>Streams, constraints and the platform\<close>

text \<open>
  A \<open>MediaStream\<close> is the list of tracks \<open>getTracks()\<close> yields. Tracks are objects of the
  platform that \<open>track.stop()\<close> mutates, so a track is an address into a store of ready
  states, which is part of the state.
\<close>

type_synonym MediaStream = "nat list"

datatype MediaStreamTrackState = live | ended

text \<open>
  The constraints object of a \<open>getUserMedia\<close> request. A track request is either a bare
  boolean (\<open>audio: true\<close>) or a constraints object; a constrained value says whether it is
  \<open>exact\<close> or \<open>ideal\<close>.
\<close>

datatype 'a constrain = exact 'a | ideal 'a

record video_constraints =
  deviceId :: "string constrain"
  width :: "nat constrain"
  height :: "nat constrain"

record audio_constraints =
  deviceId :: "string constrain"
  echoCancellation :: bool
  noiseSuppression :: bool
  autoGainControl :: bool

datatype 'a track_request = Flag bool | Constraints 'a

record MediaStreamConstraints =
  video :: "video_constraints track_request"
  audio :: "audio_constraints track_request"

text \<open>The calls the application makes on the platform, logged in the order they are made.\<close>

datatype call =
    enumerateDevices
  | getUserMedia MediaStreamConstraints
  | track_stop nat
  | requestFullscreen
  | exitFullscreen
  | alert string
  | console_error string

record HTMLVideoElement =
  srcObject :: "MediaStream option"

text \<open>
  The state: the four \<open>useState\<close> cells and the ref of \<open>App\<close>, and what the code reads and
  changes of the platform. \<open>pending\<close> counts the \<open>getUserMedia\<close> promises of \<open>startStream\<close>
  that have not settled, \<open>timers\<close> the \<open>setTimeout\<close> callbacks not yet run and
  \<open>notifications\<close> the \<open>fullscreenchange\<close> events not yet delivered.
\<close>

record state =
  devices :: "DeviceGroup list"
  selectedGroupId :: string
  isStreaming :: bool
  error :: "string option"
  videoRef :: "HTMLVideoElement option"
  fullscreenElement :: bool
  screen_width :: nat
  screen_height :: nat
  readyState :: "nat \<Rightarrow> MediaStreamTrackState option"
  calls :: "call list"
  pending :: nat
  timers :: nat
  notifications :: nat

definition log_call :: "call \<Rightarrow> state \<Rightarrow> state" where
  "log_call c s = s\<lparr>calls := calls s @ [c]\<rparr>"

text \<open>A stream the platform hands out has its tracks live.\<close>

definition acquire :: "MediaStream \<Rightarrow> state \<Rightarrow> state" where
  "acquire stream s = s\<lparr>readyState := fold (\<lambda>t m. m(t \<mapsto> live)) stream (readyState s)\<rparr>"

definition stop :: "nat \<Rightarrow> state \<Rightarrow> state" where
  "stop track s = log_call (track_stop track) (s\<lparr>readyState := (readyState s)(track \<mapsto> ended)\<rparr>)"

text \<open>\<open>stream.getTracks().forEach((track) => track.stop())\<close>\<close>

definition stop_tracks :: "MediaStream \<Rightarrow> state \<Rightarrow> state" where
  "stop_tracks stream s = fold stop stream s"

section \<open>\<open>initDevices\<close>\<close>

definition setError :: "string \<Rightarrow> state \<Rightarrow> state" where
  "setError m s =
     s\<lparr>error := Some (''Error: '' @ m @ ''. Ensure HTTPS/localhost and grant permissions.'')\<rparr>"

text \<open>Lines 31 to 58, on the descriptors that reached the grouping.\<close>

definition publish :: "MediaDeviceInfo list \<Rightarrow> state \<Rightarrow> state" where
  "publish allDevices s =
     (case discover allDevices of
        Rejected m \<Rightarrow> setError m s
      | Resolved valid \<Rightarrow>
          (case valid of
             [] \<Rightarrow> s\<lparr>devices := valid\<rparr>
           | g # _ \<Rightarrow> s\<lparr>devices := valid, selectedGroupId := DeviceGroup.groupId g\<rparr>))"

definition probe_constraints :: MediaStreamConstraints where
  "probe_constraints = \<lparr>video = Flag True, audio = Flag True\<rparr>"

text \<open>
  \<open>initDevices\<close> awaits up to three platform calls. What the platform answers to each is
  a parameter: \<open>first\<close> for the enumeration of line 21, \<open>probe\<close> for the request of
  line 23 and \<open>second\<close> for the enumeration of line 28. An answer is read only where the
  code makes the call.
\<close>

definition initDevices ::
  "MediaDeviceInfo list settled \<Rightarrow> MediaStream settled \<Rightarrow> MediaDeviceInfo list settled
     \<Rightarrow> state \<Rightarrow> state" where
  "initDevices first probe second s =
     (case first of
        Rejected m \<Rightarrow> setError m (log_call enumerateDevices s)
      | Resolved allDevices \<Rightarrow>
          if \<not> list_ex (\<lambda>d. MediaDeviceInfo.label d \<noteq> []) allDevices then
            (case probe of
               Rejected m \<Rightarrow>
                 setError m (log_call (getUserMedia probe_constraints) (log_call enumerateDevices s))
             | Resolved stream \<Rightarrow>
                 (case second of
                    Rejected m \<Rightarrow>
                      setError m (log_call enumerateDevices (stop_tracks stream (acquire stream
                        (log_call (getUserMedia probe_constraints) (log_call enumerateDevices s)))))
                  | Resolved allDevices' \<Rightarrow>
                      publish allDevices' (log_call enumerateDevices (stop_tracks stream (acquire stream
                        (log_call (getUserMedia probe_constraints) (log_call enumerateDevices s)))))))
          else publish allDevices (log_call enumerateDevices s))"

section \<open>\<open>startStream\<close>\<close>

definition constraints :: "MediaDeviceInfo \<Rightarrow> MediaDeviceInfo \<Rightarrow> state \<Rightarrow> MediaStreamConstraints" where
  "constraints v a s =
     \<lparr>video = Constraints
        \<lparr>video_constraints.deviceId = exact (MediaDeviceInfo.deviceId v),
         width = ideal (screen_width s),
         height = ideal (screen_height s)\<rparr>,
      audio = Constraints
        \<lparr>audio_constraints.deviceId = exact (MediaDeviceInfo.deviceId a),
         echoCancellation = False,
         noiseSuppression = False,
         autoGainControl = False\<rparr>\<rparr>"

text \<open>
  \<open>startStream\<close> up to its \<open>await\<close> (lines 70 to 89): the lookup of the selected group,
  the early return, and the request.
\<close>

definition startStream :: "state \<Rightarrow> state" where
  "startStream s =
     (case find (\<lambda>d. DeviceGroup.groupId d = selectedGroupId s) (devices s) of
        None \<Rightarrow> s
      | Some grp \<Rightarrow>
          (case (DeviceGroup.video grp, DeviceGroup.audio grp) of
             (Some v, Some a) \<Rightarrow> (log_call (getUserMedia (constraints v a s)) s)\<lparr>pending := pending s + 1\<rparr>
           | _ \<Rightarrow> s))"

text \<open>
  \<open>startStream\<close> from the point where the request of line 89 settles (lines 89 to 110).
  The callback handed to \<open>setTimeout\<close> is \<open>timeout_callback\<close> below.
\<close>

definition startStream_settled :: "MediaStream settled \<Rightarrow> state \<Rightarrow> state" where
  "startStream_settled result s =
     (case result of
        Rejected m \<Rightarrow> (log_call (alert (''Failed to start stream: '' @ m)) s)\<lparr>pending := pending s - 1\<rparr>
      | Resolved stream \<Rightarrow>
          (case videoRef s of
             None \<Rightarrow> (acquire stream s)\<lparr>pending := pending s - 1\<rparr>
           | Some v \<Rightarrow>
               (acquire stream s)
                 \<lparr>videoRef := Some (v\<lparr>srcObject := Some stream\<rparr>),
                  isStreaming := True,
                  timers := timers s + 1,
                  pending := pending s - 1\<rparr>))"

text \<open>
  Lines 95 to 105. \<open>granted\<close> is the platform's answer to the full-screen request; a
  granted request makes the sink the full-screen element and queues a notification.
\<close>

definition timeout_callback :: "unit settled \<Rightarrow> state \<Rightarrow> state" where
  "timeout_callback granted s =
     (case videoRef s of
        None \<Rightarrow> s\<lparr>timers := timers s - 1\<rparr>
      | Some v \<Rightarrow>
          (case granted of
             Resolved _ \<Rightarrow>
               (log_call requestFullscreen s)
                 \<lparr>fullscreenElement := True, notifications := notifications s + 1,
                  timers := timers s - 1\<rparr>
           | Rejected m \<Rightarrow>
               (log_call (console_error ''Fullscreen failed'') (log_call requestFullscreen s))
                 \<lparr>timers := timers s - 1\<rparr>))"

section \<open>Leaving full screen\<close>

text \<open>Lines 113 to 125, the listener of \<open>fullscreenchange\<close>.\<close>

definition handleFullscreenChange :: "state \<Rightarrow> state" where
  "handleFullscreenChange s =
     (if \<not> fullscreenElement s then
        (case videoRef s of
           None \<Rightarrow> s\<lparr>isStreaming := False\<rparr>
         | Some v \<Rightarrow>
             (case srcObject v of
                None \<Rightarrow> s\<lparr>isStreaming := False, videoRef := Some (v\<lparr>srcObject := None\<rparr>)\<rparr>
              | Some stream \<Rightarrow>
                  (stop_tracks stream (s\<lparr>isStreaming := False\<rparr>))
                    \<lparr>videoRef := Some (v\<lparr>srcObject := None\<rparr>)\<rparr>))
      else s)"

text \<open>
  Line 173: \<open>onPause\<close> calls \<open>document.exitFullscreen()\<close>. With a full-screen element the
  document leaves full screen and a notification is queued; without one the returned
  promise rejects, nothing changes and no notification follows.
\<close>

definition onPause :: "state \<Rightarrow> state" where
  "onPause s =
     (if fullscreenElement s then
        (log_call exitFullscreen s)\<lparr>fullscreenElement := False, notifications := notifications s + 1\<rparr>
      else log_call exitFullscreen s)"

text \<open>The delivery of one queued notification to the listener.\<close>

definition fullscreenchange :: "state \<Rightarrow> state" where
  "fullscreenchange s = handleFullscreenChange (s\<lparr>notifications := notifications s - 1\<rparr>)"

section \<open>What is rendered\<close>

text \<open>
  Lines 136 to 164: the selector and the start button exist only while \<open>isStreaming\<close> is
  false and no error is shown, and the button is disabled while \<open>devices\<close> is empty.
  A click reaches \<open>startStream\<close> only through a button that exists and is enabled; a
  change of the selector stores its value as it is.
\<close>

definition start_btn_enabled :: "state \<Rightarrow> bool" where
  "start_btn_enabled s = (\<not> isStreaming s \<and> error s = None \<and> devices s \<noteq> [])"

definition click_start :: "state \<Rightarrow> state" where
  "click_start s = (if start_btn_enabled s then startStream s else s)"

definition onChange :: "string \<Rightarrow> state \<Rightarrow> state" where
  "onChange v s = s\<lparr>selectedGroupId := v\<rparr>"

section \<open>The session as the specification names it\<close>

text \<open>
  The code keeps no state variable for the session. Active is \<open>isStreaming\<close>; Starting is
  an acquisition of \<open>startStream\<close> that has not settled; Idle is neither. The sink binding
  is \<open>videoRef.current.srcObject\<close>, and the running tracks are those the store holds live.
\<close>

datatype session = Idle | Starting | Active

definition session_state :: "state \<Rightarrow> session" where
  "session_state s = (if isStreaming s then Active else if 0 < pending s then Starting else Idle)"

definition sink :: "state \<Rightarrow> MediaStream option" where
  "sink s = (case videoRef s of None \<Rightarrow> None | Some v \<Rightarrow> srcObject v)"

definition running :: "state \<Rightarrow> MediaStream \<Rightarrow> MediaStream" where
  "running s stream = filter (\<lambda>t. readyState s t = Some live) stream"

definition acquisitions :: "state \<Rightarrow> MediaStreamConstraints list" where
  "acquisitions s = concat (map (\<lambda>c. case c of getUserMedia r \<Rightarrow> [r] | _ \<Rightarrow> []) (calls s))"

section \<open>Notions used to state and prove the properties\<close>

text \<open>
  The non-empty group ids of a descriptor list in encounter order, the descriptors that
  carry a given id, and the first occurrences of a list of keys that are not among
  \<open>seen\<close>. \<open>lookup\<close> reads an own property, the empty array standing for a missing one.
\<close>

definition ids :: "MediaDeviceInfo list \<Rightarrow> string list" where
  "ids allDevices = filter (\<lambda>k. k \<noteq> []) (map MediaDeviceInfo.groupId allDevices)"

definition members :: "MediaDeviceInfo list \<Rightarrow> string \<Rightarrow> MediaDeviceInfo list" where
  "members allDevices k = filter (\<lambda>d. MediaDeviceInfo.groupId d = k) allDevices"

fun dedup :: "string list \<Rightarrow> string list \<Rightarrow> string list" where
  "dedup seen [] = []"
| "dedup seen (k # ks) = (if k \<in> set seen then dedup seen ks else k # dedup (seen @ [k]) ks)"

definition lookup :: "groups \<Rightarrow> string \<Rightarrow> MediaDeviceInfo list" where
  "lookup groups k = (case map_of groups k of None \<Rightarrow> [] | Some g \<Rightarrow> g)"

text \<open>
  A descriptor list holds a complete pair for \<open>g\<close> when a video input and an audio input
  carry \<open>g\<close>. In a list, \<open>a\<close> is encountered before \<open>b\<close> when \<open>a\<close> occurs ahead of the first
  occurrence of \<open>b\<close>.
\<close>

definition has_kind :: "MediaDeviceKind \<Rightarrow> string \<Rightarrow> MediaDeviceInfo list \<Rightarrow> bool" where
  "has_kind k g allDevices = list_ex (\<lambda>d. kind d = k \<and> MediaDeviceInfo.groupId d = g) allDevices"

definition complete :: "MediaDeviceInfo list \<Rightarrow> string \<Rightarrow> bool" where
  "complete allDevices g = (has_kind videoinput g allDevices \<and> has_kind audioinput g allDevices)"

definition encountered_before :: "'a \<Rightarrow> 'a \<Rightarrow> 'a list \<Rightarrow> bool" where
  "encountered_before a b xs = (a \<in> set (takeWhile (\<lambda>x. x \<noteq> b) xs) \<and> b \<in> set xs)"

text \<open>Concrete descriptors and states on which the properties are exercised.\<close>

definition camera :: "string \<Rightarrow> string \<Rightarrow> MediaDeviceInfo" where
  "camera g l = \<lparr>MediaDeviceInfo.deviceId = ''cam-'' @ g, kind = videoinput,
                 MediaDeviceInfo.groupId = g, MediaDeviceInfo.label = l\<rparr>"

definition microphone :: "string \<Rightarrow> string \<Rightarrow> MediaDeviceInfo" where
  "microphone g l = \<lparr>MediaDeviceInfo.deviceId = ''mic-'' @ g, kind = audioinput,
                     MediaDeviceInfo.groupId = g, MediaDeviceInfo.label = l\<rparr>"

text \<open>The state in which \<open>App\<close> is mounted, on a 1920 by 1080 display.\<close>

definition mounted :: state where
  "mounted =
     \<lparr>devices = [], selectedGroupId = [], isStreaming = False, error = None,
      videoRef = Some \<lparr>srcObject = None\<rparr>, fullscreenElement = False,
      screen_width = 1920, screen_height = 1080, readyState = (\<lambda>t. None),
      calls = [], pending = 0, timers = 0, notifications = 0\<rparr>"

text \<open>The state after a discovery that found one labelled capture device.\<close>

definition ready :: state where
  "ready =
     initDevices (Resolved [camera ''usb'' ''HDMI Capture'', microphone ''usb'' ''HDMI Audio''])
       (Rejected []) (Rejected []) mounted"

text \<open>The tracks of the stream bound to the sink, if any.\<close>

definition current_tracks :: "state \<Rightarrow> MediaStream" where
  "current_tracks s = (case sink s of None \<Rightarrow> [] | Some stream \<Rightarrow> stream)"

text \<open>
  The state after a start from \<open>ready\<close> whose acquisition resolved with the tracks
  \<open>0\<close> and \<open>1\<close>, that state once the full-screen request was granted, and the request
  \<open>startStream\<close> builds in \<open>ready\<close>.
\<close>

definition streaming :: state where
  "streaming = startStream_settled (Resolved [0, 1]) (startStream ready)"

definition fullscreen :: state where
  "fullscreen = timeout_callback (Resolved ()) streaming"

text \<open>The state \<open>streaming\<close> once the full-screen request was refused.\<close>

definition windowed :: state where
  "windowed = timeout_callback (Rejected ''denied'') streaming"

definition usb_constraints :: MediaStreamConstraints where
  "usb_constraints =
     \<lparr>video = Constraints
        \<lparr>video_constraints.deviceId = exact ''cam-usb'', width = ideal 1920, height = ideal 1080\<rparr>,
      audio = Constraints
        \<lparr>audio_constraints.deviceId = exact ''mic-usb'',
         echoCancellation = False, noiseSuppression = False, autoGainControl = False\<rparr>\<rparr>"

section \<open>The grouping loop in closed form\<close>

lemma map_of_push_to:
  "map_of (push_to k d acc) k' = map_option (\<lambda>g. if k' = k then g @ [d] else g) (map_of acc k')"
  by (induction acc) (auto simp: push_to_def)

lemma lookup_push_to:
  "k \<in> set (map fst acc) \<Longrightarrow> lookup (push_to k d acc) k' = (if k' = k then lookup acc k @ [d] else lookup acc k')"
proof -
  assume "k \<in> set (map fst acc)"
  then obtain g where "map_of acc k = Some g"
    by (cases "map_of acc k") (auto simp: map_of_eq_None_iff)
  then show ?thesis
    by (cases "map_of acc k'") (auto simp: lookup_def map_of_push_to)
qed

lemma keys_push_to: "map fst (push_to k d acc) = map fst acc"
  by (simp add: push_to_def comp_def)

lemma lookup_append_new:
  "k \<notin> set (map fst acc) \<Longrightarrow> lookup (acc @ [(k, [d])]) k' = (if k' = k then [d] else lookup acc k')"
proof -
  assume "k \<notin> set (map fst acc)"
  then have "map_of acc k = None" by (simp add: map_of_eq_None_iff)
  then show ?thesis
    by (cases "map_of acc k'") (auto simp: lookup_def map_add_def)
qed

lemma entries_of_keys:
  "distinct (map fst acc) \<Longrightarrow> map ((\<lambda>k. (k, lookup acc k)) \<circ> fst) acc = acc"
proof -
  assume d: "distinct (map fst acc)"
  have "map (\<lambda>p. (fst p, lookup acc (fst p))) acc = acc"
  proof (rule map_idI)
    fix p assume "p \<in> set acc"
    then have "map_of acc (fst p) = Some (snd p)"
      using d map_of_is_SomeI[of acc "fst p" "snd p"] by simp
    then show "(fst p, lookup acc (fst p)) = p" by (simp add: lookup_def)
  qed
  then show ?thesis by (simp add: comp_def)
qed

lemma set_dedup: "set (dedup seen ks) = set ks - set seen"
  by (induction ks arbitrary: seen) auto

lemma group_devices_closed:
  "group_devices ds acc = Resolved res \<Longrightarrow> [] \<notin> set (map fst acc) \<Longrightarrow> distinct (map fst acc) \<Longrightarrow>
   res = map (\<lambda>k. (k, lookup acc k @ members ds k)) (map fst acc @ dedup (map fst acc) (ids ds))"
proof (induction ds arbitrary: acc)
  case Nil
  then show ?case
    by (simp add: ids_def members_def entries_of_keys)
next
  case (Cons d ds)
  let ?k = "MediaDeviceInfo.groupId d"
  show ?case
  proof (cases "?k = []")
    case True
    with Cons.prems have "group_devices ds acc = Resolved res" by simp
    from Cons.IH[OF this Cons.prems(2,3)]
    have r: "res = map (\<lambda>k. (k, lookup acc k @ members ds k)) (map fst acc @ dedup (map fst acc) (ids ds))" .
    have "\<forall>k \<in> set (map fst acc @ dedup (map fst acc) (ids ds)). k \<noteq> []"
      using Cons.prems(2) by (auto simp: set_dedup ids_def)
    then have "map (\<lambda>k. (k, lookup acc k @ members ds k)) (map fst acc @ dedup (map fst acc) (ids ds))
      = map (\<lambda>k. (k, lookup acc k @ members (d # ds) k)) (map fst acc @ dedup (map fst acc) (ids ds))"
      using True by (intro map_cong) (auto simp: members_def)
    with r True show ?thesis by (simp add: ids_def)
  next
    case False
    show ?thesis
    proof (cases "?k \<in> set (map fst acc)")
      case True
      with False Cons.prems have g: "group_devices ds (push_to ?k d acc) = Resolved res" by simp
      have "[] \<notin> set (map fst (push_to ?k d acc))" using Cons.prems(2) by (simp add: keys_push_to)
      moreover have "distinct (map fst (push_to ?k d acc))" using Cons.prems(3) by (simp add: keys_push_to)
      ultimately
      have r: "res = map (\<lambda>k. (k, lookup (push_to ?k d acc) k @ members ds k))
                 (map fst acc @ dedup (map fst acc) (ids ds))"
        using Cons.IH[OF g] by (simp add: keys_push_to)
      have "map (\<lambda>k. (k, lookup (push_to ?k d acc) k @ members ds k)) (map fst acc @ dedup (map fst acc) (ids ds))
        = map (\<lambda>k. (k, lookup acc k @ members (d # ds) k)) (map fst acc @ dedup (map fst acc) (ids ds))"
        using True by (intro map_cong) (auto simp: members_def lookup_push_to)
      with r True False show ?thesis by (simp add: ids_def)
    next
      case notin: False
      with False Cons.prems have np: "?k \<notin> set Object_prototype_keys"
        by (auto split: if_splits)
      with notin False Cons.prems have g: "group_devices ds (acc @ [(?k, [d])]) = Resolved res" by simp
      have "[] \<notin> set (map fst (acc @ [(?k, [d])]))" using Cons.prems(2) False by auto
      moreover have "distinct (map fst (acc @ [(?k, [d])]))" using Cons.prems(3) notin by simp
      ultimately
      have r: "res = map (\<lambda>k. (k, lookup (acc @ [(?k, [d])]) k @ members ds k))
                 (map fst acc @ ?k # dedup (map fst acc @ [?k]) (ids ds))"
        using Cons.IH[OF g] by simp
      have "map (\<lambda>k. (k, lookup (acc @ [(?k, [d])]) k @ members ds k)) (map fst acc @ ?k # dedup (map fst acc @ [?k]) (ids ds))
        = map (\<lambda>k. (k, lookup acc k @ members (d # ds) k)) (map fst acc @ ?k # dedup (map fst acc @ [?k]) (ids ds))"
      proof (intro map_cong refl)
        fix k assume "k \<in> set (map fst acc @ ?k # dedup (map fst acc @ [?k]) (ids ds))"
        show "(k, lookup (acc @ [(?k, [d])]) k @ members ds k) = (k, lookup acc k @ members (d # ds) k)"
        proof (cases "k = ?k")
          case True
          have "map_of acc ?k = None" using notin by (simp add: map_of_eq_None_iff)
          then have "lookup acc ?k = []" by (simp add: lookup_def)
          then show ?thesis using True notin by (simp add: lookup_append_new members_def)
        next
          case False
          then show ?thesis using notin by (simp add: lookup_append_new members_def)
        qed
      qed
      with r notin False show ?thesis by (simp add: ids_def)
    qed
  qed
qed


section \<open>The valid groups and their order\<close>

lemma group_devices_from_empty:
  assumes "group_devices ds [] = Resolved res"
  shows "res = map (\<lambda>k. (k, members ds k)) (dedup [] (ids ds))"
  using group_devices_closed[OF assms] by (simp add: lookup_def)

lemma find_members_None:
  "(find (\<lambda>d. kind d = c) (members ds k) = None) = (\<not> has_kind c k ds)"
  by (auto simp: find_None_iff members_def has_kind_def list_ex_iff)

lemma find_SomeD: "find P xs = Some x \<Longrightarrow> P x \<and> x \<in> set xs"
  by (induction xs) (auto split: if_splits)

lemma valid_group_ids:
  "map DeviceGroup.groupId (valid_group (members ds k)) = (if complete ds k then [k] else [])"
proof (cases "find (\<lambda>d. kind d = videoinput) (members ds k)")
  case None
  then show ?thesis
    using find_members_None[of videoinput ds k] by (simp add: valid_group_def complete_def)
next
  case (Some v)
  then have v: "has_kind videoinput k ds" "MediaDeviceInfo.groupId v = k"
    using find_members_None[of videoinput ds k] find_SomeD[OF Some] by (auto simp: members_def)
  show ?thesis
  proof (cases "find (\<lambda>d. kind d = audioinput) (members ds k)")
    case None
    then show ?thesis
      using Some find_members_None[of audioinput ds k] by (simp add: valid_group_def complete_def)
  next
    case a: (Some a)
    then have "has_kind audioinput k ds"
      using find_members_None[of audioinput ds k] by auto
    then show ?thesis using Some a v by (simp add: valid_group_def complete_def)
  qed
qed

lemma valid_ids_of_entries:
  "\<forall>p \<in> set es. snd p = members ds (fst p) \<Longrightarrow>
   map DeviceGroup.groupId (concat (map valid_group (map snd es))) = filter (complete ds) (map fst es)"
  by (induction es) (auto simp: valid_group_ids)

lemma valid_ids:
  assumes "group_devices ds [] = Resolved res"
  shows "map DeviceGroup.groupId (validGroups res) =
         filter (complete ds) (map fst (sort_key (\<lambda>p. numeral_value (fst p)) (filter (\<lambda>p. is_array_index (fst p)) res)))
         @ filter (\<lambda>k. \<not> is_array_index k \<and> complete ds k) (dedup [] (ids ds))"
proof -
  let ?E = "sort_key (\<lambda>p. numeral_value (fst p)) (filter (\<lambda>p. is_array_index (fst p)) res)
            @ filter (\<lambda>p. \<not> is_array_index (fst p)) res"
  have res: "res = map (\<lambda>k. (k, members ds k)) (dedup [] (ids ds))"
    by (rule group_devices_from_empty[OF assms])
  then have "\<forall>p \<in> set res. snd p = members ds (fst p)" by auto
  then have "\<forall>p \<in> set ?E. snd p = members ds (fst p)" by auto
  then have "map DeviceGroup.groupId (concat (map valid_group (map snd ?E))) = filter (complete ds) (map fst ?E)"
    by (rule valid_ids_of_entries)
  moreover have "map fst (filter (\<lambda>p. \<not> is_array_index (fst p)) res) = filter (\<lambda>k. \<not> is_array_index k) (dedup [] (ids ds))"
    by (subst res) (simp add: filter_map comp_def)
  ultimately show ?thesis
    by (simp add: validGroups_def Object_values_def)
qed

lemma set_valid_ids:
  assumes "group_devices ds [] = Resolved res"
  shows "set (map DeviceGroup.groupId (validGroups res)) = {k. k \<noteq> [] \<and> complete ds k}"
proof -
  have res: "res = map (\<lambda>k. (k, members ds k)) (dedup [] (ids ds))"
    by (rule group_devices_from_empty[OF assms])
  have keys: "fst ` set res = set (ids ds)"
    by (subst res) (simp add: set_dedup image_image)
  have "set (map fst (sort_key (\<lambda>p. numeral_value (fst p)) (filter (\<lambda>p. is_array_index (fst p)) res)))
        = {k \<in> set (ids ds). is_array_index k}"
    using keys by auto
  then have "set (map DeviceGroup.groupId (validGroups res)) = {k \<in> set (ids ds). complete ds k}"
    unfolding valid_ids[OF assms] by (auto simp: set_dedup)
  moreover have "complete ds k \<Longrightarrow> k \<noteq> [] \<Longrightarrow> k \<in> set (ids ds)" for k
    by (auto simp: complete_def has_kind_def list_ex_iff ids_def)
  moreover have "k \<in> set (ids ds) \<Longrightarrow> k \<noteq> []" for k
    by (auto simp: ids_def)
  ultimately show ?thesis by auto
qed

lemma takeWhile_filter:
  "P b \<Longrightarrow> takeWhile (\<lambda>x. x \<noteq> b) (filter P xs) = filter P (takeWhile (\<lambda>x. x \<noteq> b) xs)"
  by (induction xs) auto

lemma takeWhile_dedup:
  "a \<notin> set seen \<Longrightarrow> b \<notin> set seen \<Longrightarrow>
   (a \<in> set (takeWhile (\<lambda>x. x \<noteq> b) (dedup seen ks))) = (a \<in> set (takeWhile (\<lambda>x. x \<noteq> b) ks))"
proof (induction ks arbitrary: seen)
  case Nil
  then show ?case by simp
next
  case (Cons k ks)
  show ?case
  proof (cases "k \<in> set seen")
    case True
    then have "k \<noteq> a" "k \<noteq> b" using Cons.prems by auto
    then show ?thesis using True Cons.IH[OF Cons.prems] by auto
  next
    case False
    show ?thesis
    proof (cases "k = b")
      case True
      then show ?thesis using False by simp
    next
      case kb: False
      show ?thesis
      proof (cases "k = a")
        case True
        then show ?thesis using False kb by simp
      next
        case ka: False
        have "a \<notin> set (seen @ [k])" "b \<notin> set (seen @ [k])"
          using Cons.prems ka kb by auto
        from Cons.IH[OF this] show ?thesis using False kb ka by simp
      qed
    qed
  qed
qed

lemma order_kept:
  assumes res: "group_devices ds [] = Resolved res"
    and a: "a \<noteq> []" "\<not> is_array_index a" "complete ds a"
    and b: "b \<noteq> []" "\<not> is_array_index b" "complete ds b"
    and ab: "encountered_before a b (map MediaDeviceInfo.groupId ds)"
  shows "encountered_before a b (map DeviceGroup.groupId (validGroups res))"
proof -
  define S where "S = filter (complete ds) (map fst (sort_key (\<lambda>p. numeral_value (fst p)) (filter (\<lambda>p. is_array_index (fst p)) res)))"
  define N where "N = filter (\<lambda>k. \<not> is_array_index k \<and> complete ds k) (dedup [] (ids ds))"
  have v: "map DeviceGroup.groupId (validGroups res) = S @ N"
    unfolding S_def N_def by (rule valid_ids[OF res])
  have "\<forall>k \<in> set S. is_array_index k" unfolding S_def by auto
  then have S: "x \<in> set S \<Longrightarrow> x \<noteq> b" for x using b(2) by blast
  have "a \<in> set (takeWhile (\<lambda>x. x \<noteq> b) (map MediaDeviceInfo.groupId ds))"
    using ab by (simp add: encountered_before_def)
  then have "a \<in> set (takeWhile (\<lambda>x. x \<noteq> b) (ids ds))"
    using a(1) b(1) by (simp add: ids_def takeWhile_filter)
  then have "a \<in> set (takeWhile (\<lambda>x. x \<noteq> b) (dedup [] (ids ds)))"
    by (simp add: takeWhile_dedup)
  then have "a \<in> set (takeWhile (\<lambda>x. x \<noteq> b) N)"
    unfolding N_def using a b by (simp add: takeWhile_filter)
  moreover have "takeWhile (\<lambda>x. x \<noteq> b) (S @ N) = S @ takeWhile (\<lambda>x. x \<noteq> b) N"
    by (rule takeWhile_append2) (rule S)
  moreover have "b \<in> set (map DeviceGroup.groupId (validGroups res))"
    unfolding set_valid_ids[OF res] using b by simp
  ultimately show ?thesis
    unfolding encountered_before_def v by simp
qed


lemma sorted_before:
  "sorted (map f xs) \<Longrightarrow> a \<in> set xs \<Longrightarrow> b \<in> set xs \<Longrightarrow> f a < f b \<Longrightarrow>
   a \<in> set (takeWhile (\<lambda>x. x \<noteq> b) xs)"
  for f :: "'a \<Rightarrow> int"
proof (induction xs)
  case Nil
  then show ?case by simp
next
  case (Cons x xs)
  show ?case
  proof (cases "x = b")
    case True
    then have "a \<in> set xs" using Cons.prems by auto
    then have "f b \<le> f a" using Cons.prems(1) True by auto
    then show ?thesis using Cons.prems(4) by simp
  next
    case False
    show ?thesis
    proof (cases "x = a")
      case True
      then show ?thesis using False by simp
    next
      case xa: False
      then have "a \<in> set xs" "b \<in> set xs" using Cons.prems False by auto
      moreover have "sorted (map f xs)" using Cons.prems(1) by simp
      ultimately show ?thesis using Cons.IH Cons.prems(4) False by simp
    qed
  qed
qed

lemma order_kept_general:
  assumes res: "group_devices ds [] = Resolved res"
    and a: "a \<noteq> []" "complete ds a"
    and b: "b \<noteq> []" "complete ds b"
    and idx: "\<not> is_array_index b \<or> (is_array_index a \<and> is_array_index b \<and> numeral_value a < numeral_value b)"
    and ab: "encountered_before a b (map MediaDeviceInfo.groupId ds)"
  shows "encountered_before a b (map DeviceGroup.groupId (validGroups res))"
proof -
  define S where "S = filter (complete ds) (map fst (sort_key (\<lambda>p. numeral_value (fst p)) (filter (\<lambda>p. is_array_index (fst p)) res)))"
  define N where "N = filter (\<lambda>k. \<not> is_array_index k \<and> complete ds k) (dedup [] (ids ds))"
  have v: "map DeviceGroup.groupId (validGroups res) = S @ N"
    unfolding S_def N_def by (rule valid_ids[OF res])
  have r: "res = map (\<lambda>k. (k, members ds k)) (dedup [] (ids ds))"
    by (rule group_devices_from_empty[OF res])
  have keys: "fst ` set res = set (ids ds)"
    by (subst r) (simp add: set_dedup image_image)
  have setS: "set S = {k \<in> set (ids ds). is_array_index k \<and> complete ds k}"
    unfolding S_def using keys by auto
  have ain: "a \<in> set (ids ds)" "b \<in> set (ids ds)"
    using a b by (auto simp: complete_def has_kind_def list_ex_iff ids_def)
  have bv: "b \<in> set (map DeviceGroup.groupId (validGroups res))"
    unfolding set_valid_ids[OF res] using b by simp
  show ?thesis
  proof (cases "is_array_index b")
    case False
    have Sb: "x \<in> set S \<Longrightarrow> x \<noteq> b" for x using False setS by auto
    have tw: "takeWhile (\<lambda>x. x \<noteq> b) (S @ N) = S @ takeWhile (\<lambda>x. x \<noteq> b) N"
      by (rule takeWhile_append2) (rule Sb)
    show ?thesis
    proof (cases "is_array_index a")
      case True
      then have "a \<in> set S" using setS ain a by simp
      then show ?thesis using tw bv unfolding encountered_before_def v by simp
    next
      case na: False
      show ?thesis using res a(1) na a(2) b(1) False b(2) ab by (rule order_kept)
    qed
  next
    case True
    then have i: "is_array_index a" "numeral_value a < numeral_value b" using idx by auto
    have inS: "a \<in> set S" "b \<in> set S" using setS ain a b i True by auto
    have "sorted (map (\<lambda>p. numeral_value (fst p)) (sort_key (\<lambda>p. numeral_value (fst p)) (filter (\<lambda>p. is_array_index (fst p)) res)))"
      by (rule sorted_sort_key)
    then have "sorted (map numeral_value (map fst (sort_key (\<lambda>p. numeral_value (fst p)) (filter (\<lambda>p. is_array_index (fst p)) res))))"
      by (simp add: comp_def)
    then have "sorted (map numeral_value S)"
      unfolding S_def by (rule sorted_filter)
    then have "a \<in> set (takeWhile (\<lambda>x. x \<noteq> b) S)"
      using inS i(2) by (rule sorted_before)
    moreover have "takeWhile (\<lambda>x. x \<noteq> b) (S @ N) = takeWhile (\<lambda>x. x \<noteq> b) S"
      using inS(2) by (intro takeWhile_append1[of b]) auto
    ultimately show ?thesis using bv unfolding encountered_before_def v by simp
  qed
qed

section \<open>Evaluation of the definitions on concrete inputs\<close>

lemmas discovery_defs =
  discover_def validGroups_def Object_values_def valid_group_def push_to_def
  is_array_index_def is_digit_def numeral_value_def digit_value_def Object_prototype_keys_def
  camera_def microphone_def

lemmas state_defs =
  initDevices_def publish_def setError_def log_call_def acquire_def stop_tracks_def stop_def
  mounted_def

lemmas session_defs =
  startStream_def startStream_settled_def timeout_callback_def constraints_def
  handleFullscreenChange_def onPause_def fullscreenchange_def click_start_def start_btn_enabled_def
  onChange_def session_state_def sink_def running_def acquisitions_def current_tracks_def
  ready_def streaming_def fullscreen_def windowed_def usb_constraints_def

section \<open>Discovery\<close>

lemma discover_Resolved:
  "discover ds = Resolved valid \<Longrightarrow> \<exists>res. group_devices ds [] = Resolved res \<and> valid = validGroups res"
  by (auto simp: discover_def split: settled.splits)

lemma group_devices_skip_empty:
  "group_devices (filter (\<lambda>d. MediaDeviceInfo.groupId d \<noteq> []) ds) acc = group_devices ds acc"
  by (induction ds arbitrary: acc) auto

text \<open>
  Discovery fails on a descriptor whose \<open>groupId\<close> names a property that the object
  \<open>groups\<close> inherits, whatever else the list holds.
\<close>

lemma inherited_key_rejects:
  "discover [camera ''usb'' ''Cam'', microphone ''usb'' ''Mic'', camera ''constructor'' ''Cam'']
     = Rejected ''group.push is not a function''"
  by (simp add: discovery_defs)

text \<open>
  When discovery succeeds: exactly when no descriptor's \<open>groupId\<close> names an inherited
  property.
\<close>

lemma empty_not_inherited: "[] \<notin> set Object_prototype_keys"
  by (simp add: Object_prototype_keys_def)

lemma group_devices_resolves:
  "set (map MediaDeviceInfo.groupId ds) \<inter> set Object_prototype_keys = {} \<Longrightarrow>
   \<exists>res. group_devices ds acc = Resolved res"
  by (induction ds arbitrary: acc) auto

lemma group_devices_rejects:
  "set (map fst acc) \<inter> set Object_prototype_keys = {} \<Longrightarrow>
   set (map MediaDeviceInfo.groupId ds) \<inter> set Object_prototype_keys \<noteq> {} \<Longrightarrow>
   group_devices ds acc = Rejected ''group.push is not a function''"
proof (induction ds arbitrary: acc)
  case Nil
  then show ?case by simp
next
  case (Cons d ds)
  let ?k = "MediaDeviceInfo.groupId d"
  show ?case
  proof (cases "?k \<in> set Object_prototype_keys")
    case True
    then have "?k \<noteq> []" using empty_not_inherited by auto
    moreover have "?k \<notin> set (map fst acc)" using True Cons.prems(1) by auto
    ultimately show ?thesis using True by simp
  next
    case False
    then have rest: "set (map MediaDeviceInfo.groupId ds) \<inter> set Object_prototype_keys \<noteq> {}"
      using Cons.prems(2) by auto
    have "set (map fst (push_to ?k d acc)) \<inter> set Object_prototype_keys = {}"
      using Cons.prems(1) by (simp add: keys_push_to)
    moreover have "set (map fst (acc @ [(?k, [d])])) \<inter> set Object_prototype_keys = {}"
      using Cons.prems(1) False by auto
    ultimately show ?thesis
      using False rest Cons.IH Cons.prems(1) by simp
  qed
qed

lemma discover_resolves_iff:
  "(\<exists>valid. discover ds = Resolved valid) =
   (set (map MediaDeviceInfo.groupId ds) \<inter> set Object_prototype_keys = {})"
proof
  assume "\<exists>valid. discover ds = Resolved valid"
  then obtain res where "group_devices ds [] = Resolved res"
    by (auto simp: discover_def split: settled.splits)
  then show "set (map MediaDeviceInfo.groupId ds) \<inter> set Object_prototype_keys = {}"
    using group_devices_rejects[of "[]" ds] by auto
next
  assume "set (map MediaDeviceInfo.groupId ds) \<inter> set Object_prototype_keys = {}"
  then obtain res where "group_devices ds [] = Resolved res"
    using group_devices_resolves by blast
  then show "\<exists>valid. discover ds = Resolved valid" by (simp add: discover_def)
qed

text \<open>
  Claim C2, as amended. On a descriptor list in which no \<open>groupId\<close> names a property
  that the object \<open>groups\<close> inherits, discovery succeeds, and a \<open>DeviceGroup\<close> is produced
  for a non-empty \<open>groupId\<close> \<open>g\<close> if and only if the descriptors contain at least one video
  input and at least one audio input sharing \<open>g\<close>.
\<close>

theorem group_iff_complete_pair:
  assumes "set (map MediaDeviceInfo.groupId allDevices) \<inter> set Object_prototype_keys = {}"
    and "g \<noteq> []"
  shows "\<exists>valid. discover allDevices = Resolved valid \<and>
         ((\<exists>grp \<in> set valid. DeviceGroup.groupId grp = g) =
         ((\<exists>d \<in> set allDevices. kind d = videoinput \<and> MediaDeviceInfo.groupId d = g) \<and>
          (\<exists>d \<in> set allDevices. kind d = audioinput \<and> MediaDeviceInfo.groupId d = g)))"
proof -
  obtain res where res: "group_devices allDevices [] = Resolved res"
    using group_devices_resolves[OF assms(1)] by blast
  then have d: "discover allDevices = Resolved (validGroups res)" by (simp add: discover_def)
  have "(\<exists>grp \<in> set (validGroups res). DeviceGroup.groupId grp = g) = (g \<in> set (map DeviceGroup.groupId (validGroups res)))"
    by auto
  also have "\<dots> = complete allDevices g"
    unfolding set_valid_ids[OF res] using assms(2) by simp
  finally have "(\<exists>grp \<in> set (validGroups res). DeviceGroup.groupId grp = g) =
         ((\<exists>d \<in> set allDevices. kind d = videoinput \<and> MediaDeviceInfo.groupId d = g) \<and>
          (\<exists>d \<in> set allDevices. kind d = audioinput \<and> MediaDeviceInfo.groupId d = g))"
    by (simp add: complete_def has_kind_def list_ex_iff)
  with d show ?thesis by blast
qed

text \<open>
  C2 on three descriptors: the pair sharing \<open>usb\<close> yields a group, the lone camera
  \<open>solo\<close> yields none.
\<close>

theorem group_iff_complete_pair_witness:
  "set (map MediaDeviceInfo.groupId [camera ''usb'' [], microphone ''usb'' [], camera ''solo'' []])
     \<inter> set Object_prototype_keys = {}
   \<and> ''usb'' \<noteq> []
   \<and> discover [camera ''usb'' [], microphone ''usb'' [], camera ''solo'' []] =
     Resolved [\<lparr>DeviceGroup.groupId = ''usb'', video = Some (camera ''usb'' []),
                audio = Some (microphone ''usb'' []), DeviceGroup.label = ''Unknown Capture Device''\<rparr>]
   \<and> (\<exists>d \<in> set [camera ''usb'' [], microphone ''usb'' [], camera ''solo'' []].
         kind d = audioinput \<and> MediaDeviceInfo.groupId d = ''usb'')"
  using group_iff_complete_pair
    [of "[camera ''usb'' [], microphone ''usb'' [], camera ''solo'' []]" "''usb''"]
    group_iff_complete_pair
    [of "[camera ''usb'' [], microphone ''usb'' [], camera ''solo'' []]" "''solo''"]
  by (simp add: discovery_defs)

text \<open>
  C2 as stated fails for the empty \<open>groupId\<close>: a video input and an audio input that
  share it yield no group. It fails also for a \<open>groupId\<close> that names an inherited
  property: discovery then yields no groups at all.
\<close>

theorem empty_groupId_pair_yields_no_group:
  "discover [camera [] ''Cam'', microphone [] ''Mic''] = Resolved []
   \<and> kind (camera [] ''Cam'') = videoinput \<and> MediaDeviceInfo.groupId (camera [] ''Cam'') = []
   \<and> kind (microphone [] ''Mic'') = audioinput \<and> MediaDeviceInfo.groupId (microphone [] ''Mic'') = []
   \<and> discover [camera ''constructor'' ''Cam'', microphone ''constructor'' ''Mic'']
       = Rejected ''group.push is not a function''"
  by (simp add: discovery_defs)

text \<open>
  Claim C6, as amended. Let \<open>g1\<close> and \<open>g2\<close> be non-empty group ids, each with a video
  input and an audio input among the descriptors, and let \<open>g1\<close> be encountered before
  \<open>g2\<close>. If \<open>g2\<close> is not an array index, or both are array indices and \<open>g1\<close> is the
  smaller number, a successful discovery returns the group of \<open>g1\<close> before the group of
  \<open>g2\<close>. Whenever discovery returns a group at all, the selection it stores is the
  \<open>groupId\<close> of the first group returned.
\<close>

theorem discovery_keeps_encounter_order:
  "(discover allDevices = Resolved valid \<and>
    complete allDevices g1 \<and> complete allDevices g2 \<and> g1 \<noteq> [] \<and> g2 \<noteq> [] \<and>
    (\<not> is_array_index g2 \<or>
       (is_array_index g1 \<and> is_array_index g2 \<and> numeral_value g1 < numeral_value g2)) \<and>
    encountered_before g1 g2 (map MediaDeviceInfo.groupId allDevices) \<longrightarrow>
      encountered_before g1 g2 (map DeviceGroup.groupId valid))
   \<and> (discover allDevices = Resolved (g # rest) \<longrightarrow>
        devices (publish allDevices s) = g # rest \<and>
        selectedGroupId (publish allDevices s) = DeviceGroup.groupId g)"
proof (intro conjI impI)
  assume h: "discover allDevices = Resolved valid \<and>
    complete allDevices g1 \<and> complete allDevices g2 \<and> g1 \<noteq> [] \<and> g2 \<noteq> [] \<and>
    (\<not> is_array_index g2 \<or>
       (is_array_index g1 \<and> is_array_index g2 \<and> numeral_value g1 < numeral_value g2)) \<and>
    encountered_before g1 g2 (map MediaDeviceInfo.groupId allDevices)"
  then obtain res where res: "group_devices allDevices [] = Resolved res" and v: "valid = validGroups res"
    using discover_Resolved by blast
  show "encountered_before g1 g2 (map DeviceGroup.groupId valid)"
    unfolding v using h by (intro order_kept_general[OF res]) simp_all
next
  assume "discover allDevices = Resolved (g # rest)"
  then show "devices (publish allDevices s) = g # rest"
    and "selectedGroupId (publish allDevices s) = DeviceGroup.groupId g"
    by (simp_all add: publish_def)
qed

text \<open>
  C6 on two interleaved pairs: \<open>usb\<close> is met first, is returned first and becomes the
  selection. And on a pair \<open>7\<close> met before a pair \<open>usb\<close>, and a pair \<open>1\<close> met before a
  pair \<open>2\<close>, which keep their order too.
\<close>

theorem discovery_keeps_encounter_order_witness:
  "discover [camera ''usb'' [], microphone ''hdmi'' ''B'', microphone ''usb'' ''A'', camera ''hdmi'' ''B''] =
     Resolved
       [\<lparr>DeviceGroup.groupId = ''usb'', video = Some (camera ''usb'' []),
          audio = Some (microphone ''usb'' ''A''), DeviceGroup.label = ''Unknown Capture Device''\<rparr>,
        \<lparr>DeviceGroup.groupId = ''hdmi'', video = Some (camera ''hdmi'' ''B''),
          audio = Some (microphone ''hdmi'' ''B''), DeviceGroup.label = ''B''\<rparr>]
   \<and> complete [camera ''usb'' [], microphone ''hdmi'' ''B'', microphone ''usb'' ''A'', camera ''hdmi'' ''B''] ''usb''
   \<and> complete [camera ''usb'' [], microphone ''hdmi'' ''B'', microphone ''usb'' ''A'', camera ''hdmi'' ''B''] ''hdmi''
   \<and> \<not> is_array_index ''hdmi''
   \<and> encountered_before ''usb'' ''hdmi''
       (map MediaDeviceInfo.groupId
          [camera ''usb'' [], microphone ''hdmi'' ''B'', microphone ''usb'' ''A'', camera ''hdmi'' ''B''])
   \<and> selectedGroupId
        (publish [camera ''usb'' [], microphone ''hdmi'' ''B'', microphone ''usb'' ''A'', camera ''hdmi'' ''B'']
           mounted) = ''usb''
   \<and> is_array_index ''7'' \<and> \<not> is_array_index ''usb''
   \<and> encountered_before ''7'' ''usb''
       (map MediaDeviceInfo.groupId [camera ''7'' ''A'', microphone ''7'' ''A'', camera ''usb'' ''B'', microphone ''usb'' ''B''])
   \<and> map DeviceGroup.groupId (validGroups [(''7'', [camera ''7'' ''A'', microphone ''7'' ''A'']),
                                            (''usb'', [camera ''usb'' ''B'', microphone ''usb'' ''B''])]) =
       [''7'', ''usb'']
   \<and> is_array_index ''1'' \<and> is_array_index ''2'' \<and> numeral_value ''1'' < numeral_value ''2''
   \<and> map DeviceGroup.groupId (validGroups [(''1'', [camera ''1'' ''A'', microphone ''1'' ''A'']),
                                            (''2'', [camera ''2'' ''B'', microphone ''2'' ''B''])]) =
       [''1'', ''2'']"
  using discovery_keeps_encounter_order
    [of "[camera ''usb'' [], microphone ''hdmi'' ''B'', microphone ''usb'' ''A'', camera ''hdmi'' ''B'']"
        "[\<lparr>DeviceGroup.groupId = ''usb'', video = Some (camera ''usb'' []),
           audio = Some (microphone ''usb'' ''A''), DeviceGroup.label = ''Unknown Capture Device''\<rparr>,
          \<lparr>DeviceGroup.groupId = ''hdmi'', video = Some (camera ''hdmi'' ''B''),
           audio = Some (microphone ''hdmi'' ''B''), DeviceGroup.label = ''B''\<rparr>]"
        "''usb''" "''hdmi''"
        "\<lparr>DeviceGroup.groupId = ''usb'', video = Some (camera ''usb'' []),
           audio = Some (microphone ''usb'' ''A''), DeviceGroup.label = ''Unknown Capture Device''\<rparr>"
        "[\<lparr>DeviceGroup.groupId = ''hdmi'', video = Some (camera ''hdmi'' ''B''),
           audio = Some (microphone ''hdmi'' ''B''), DeviceGroup.label = ''B''\<rparr>]"
        mounted]
    discovery_keeps_encounter_order
    [of "[camera ''7'' ''A'', microphone ''7'' ''A'', camera ''usb'' ''B'', microphone ''usb'' ''B'']"
        "validGroups [(''7'', [camera ''7'' ''A'', microphone ''7'' ''A'']),
                      (''usb'', [camera ''usb'' ''B'', microphone ''usb'' ''B''])]"
        "''7''" "''usb''"]
    discovery_keeps_encounter_order
    [of "[camera ''1'' ''A'', microphone ''1'' ''A'', camera ''2'' ''B'', microphone ''2'' ''B'']"
        "validGroups [(''1'', [camera ''1'' ''A'', microphone ''1'' ''A'']),
                      (''2'', [camera ''2'' ''B'', microphone ''2'' ''B''])]"
        "''1''" "''2''"]
  by (simp add: encountered_before_def complete_def has_kind_def discovery_defs state_defs)

text \<open>
  C6 as stated fails for group ids that are array indices: the pair \<open>2\<close> is encountered
  before the pair \<open>1\<close>, yet the group \<open>1\<close> is returned first and becomes the selection.
\<close>

theorem array_index_ids_reorder_groups:
  "encountered_before ''2'' ''1''
     (map MediaDeviceInfo.groupId
        [camera ''2'' ''A'', microphone ''2'' ''A'', camera ''1'' ''B'', microphone ''1'' ''B''])
   \<and> map DeviceGroup.groupId (devices (initDevices
        (Resolved [camera ''2'' ''A'', microphone ''2'' ''A'', camera ''1'' ''B'', microphone ''1'' ''B''])
        (Rejected []) (Rejected []) mounted)) = [''1'', ''2'']
   \<and> selectedGroupId (initDevices
        (Resolved [camera ''2'' ''A'', microphone ''2'' ''A'', camera ''1'' ''B'', microphone ''1'' ''B''])
        (Rejected []) (Rejected []) mounted) = ''1''"
  by (simp add: encountered_before_def discovery_defs state_defs)

text \<open>
  Claim C9. Every group a successful discovery returns has a video descriptor, and its
  label is \<open>Unknown Capture Device\<close> when that descriptor's label is empty and the
  descriptor's label otherwise.
\<close>

theorem label_fallback:
  assumes "discover allDevices = Resolved valid" and "grp \<in> set valid"
  shows "\<exists>v. DeviceGroup.video grp = Some v \<and>
           DeviceGroup.label grp =
             (if MediaDeviceInfo.label v = [] then ''Unknown Capture Device'' else MediaDeviceInfo.label v)"
proof -
  obtain res where "valid = validGroups res"
    using discover_Resolved[OF assms(1)] by blast
  then obtain devs where "grp \<in> set (valid_group devs)"
    using assms(2) by (auto simp: validGroups_def)
  then obtain v a where "find (\<lambda>d. kind d = videoinput) devs = Some v"
    and "grp = \<lparr>DeviceGroup.groupId = MediaDeviceInfo.groupId v, video = Some v, audio = Some a,
                DeviceGroup.label = (if MediaDeviceInfo.label v \<noteq> [] then MediaDeviceInfo.label v
                                     else ''Unknown Capture Device'')\<rparr>"
    by (cases "find (\<lambda>d. kind d = videoinput) devs"; cases "find (\<lambda>d. kind d = audioinput) devs")
       (simp_all add: valid_group_def)
  then show ?thesis by simp
qed

text \<open>C9 on a pair whose camera has no label and a pair whose camera has one.\<close>

theorem label_fallback_witness:
  "discover [camera ''usb'' [], microphone ''usb'' ''Mic'', microphone ''hdmi'' ''Line'', camera ''hdmi'' ''HDMI''] =
     Resolved
       [\<lparr>DeviceGroup.groupId = ''usb'', video = Some (camera ''usb'' []),
          audio = Some (microphone ''usb'' ''Mic''), DeviceGroup.label = ''Unknown Capture Device''\<rparr>,
        \<lparr>DeviceGroup.groupId = ''hdmi'', video = Some (camera ''hdmi'' ''HDMI''),
          audio = Some (microphone ''hdmi'' ''Line''), DeviceGroup.label = ''HDMI''\<rparr>]
   \<and> MediaDeviceInfo.label (camera ''usb'' []) = []
   \<and> MediaDeviceInfo.label (camera ''hdmi'' ''HDMI'') = ''HDMI''"
  using label_fallback
    [of "[camera ''usb'' [], microphone ''usb'' ''Mic'', microphone ''hdmi'' ''Line'', camera ''hdmi'' ''HDMI'']"
        "[\<lparr>DeviceGroup.groupId = ''usb'', video = Some (camera ''usb'' []),
           audio = Some (microphone ''usb'' ''Mic''), DeviceGroup.label = ''Unknown Capture Device''\<rparr>,
          \<lparr>DeviceGroup.groupId = ''hdmi'', video = Some (camera ''hdmi'' ''HDMI''),
           audio = Some (microphone ''hdmi'' ''Line''), DeviceGroup.label = ''HDMI''\<rparr>]"
        "\<lparr>DeviceGroup.groupId = ''usb'', video = Some (camera ''usb'' []),
           audio = Some (microphone ''usb'' ''Mic''), DeviceGroup.label = ''Unknown Capture Device''\<rparr>"]
  by (simp add: discovery_defs)

text \<open>
  Claim C10. Descriptors with an empty \<open>groupId\<close> are skipped: discovery yields what it
  yields on the list without them, and no group it returns has an empty \<open>groupId\<close>.
\<close>

theorem empty_groupId_skipped:
  "discover (filter (\<lambda>d. MediaDeviceInfo.groupId d \<noteq> []) allDevices) = discover allDevices \<and>
   (discover allDevices = Resolved valid \<longrightarrow> [] \<notin> set (map DeviceGroup.groupId valid))"
proof
  show "discover (filter (\<lambda>d. MediaDeviceInfo.groupId d \<noteq> []) allDevices) = discover allDevices"
    by (simp add: discover_def group_devices_skip_empty)
  show "discover allDevices = Resolved valid \<longrightarrow> [] \<notin> set (map DeviceGroup.groupId valid)"
  proof
    assume "discover allDevices = Resolved valid"
    then obtain res where res: "group_devices allDevices [] = Resolved res" and v: "valid = validGroups res"
      using discover_Resolved by blast
    show "[] \<notin> set (map DeviceGroup.groupId valid)"
      unfolding v set_valid_ids[OF res] by simp
  qed
qed

text \<open>
  C10 on a list in which a camera and a microphone share the empty \<open>groupId\<close> beside a
  pair sharing \<open>usb\<close>: only \<open>usb\<close> is returned.
\<close>

theorem empty_groupId_skipped_witness:
  "discover [camera [] ''Cam'', camera ''usb'' ''HDMI'', microphone [] ''Mic'', microphone ''usb'' ''Line''] =
     Resolved [\<lparr>DeviceGroup.groupId = ''usb'', video = Some (camera ''usb'' ''HDMI''),
                audio = Some (microphone ''usb'' ''Line''), DeviceGroup.label = ''HDMI''\<rparr>]
   \<and> discover (filter (\<lambda>d. MediaDeviceInfo.groupId d \<noteq> [])
        [camera [] ''Cam'', camera ''usb'' ''HDMI'', microphone [] ''Mic'', microphone ''usb'' ''Line'']) =
     Resolved [\<lparr>DeviceGroup.groupId = ''usb'', video = Some (camera ''usb'' ''HDMI''),
                audio = Some (microphone ''usb'' ''Line''), DeviceGroup.label = ''HDMI''\<rparr>]"
  using empty_groupId_skipped
    [of "[camera [] ''Cam'', camera ''usb'' ''HDMI'', microphone [] ''Mic'', microphone ''usb'' ''Line'']"
        "[\<lparr>DeviceGroup.groupId = ''usb'', video = Some (camera ''usb'' ''HDMI''),
           audio = Some (microphone ''usb'' ''Line''), DeviceGroup.label = ''HDMI''\<rparr>]"]
  by (simp add: discovery_defs)

section \<open>The probe of \<open>initDevices\<close>\<close>

lemma stop_tracks_closed:
  "stop_tracks stream s =
     s\<lparr>readyState := fold (\<lambda>t m. m(t \<mapsto> ended)) stream (readyState s),
       calls := calls s @ map track_stop stream\<rparr>"
  unfolding stop_tracks_def
  by (induction stream arbitrary: s) (simp_all add: stop_def log_call_def)

lemma fold_upd_apply:
  "fold (\<lambda>t m. m(t \<mapsto> v)) stream m t = (if t \<in> set stream then Some v else m t)"
  by (induction stream arbitrary: m) auto

lemma calls_publish: "calls (publish ds s) = calls s"
  by (simp add: publish_def setError_def split: settled.splits list.splits)

lemma readyState_publish: "readyState (publish ds s) = readyState s"
  by (simp add: publish_def setError_def split: settled.splits list.splits)

lemma probe_steps_closed:
  "log_call enumerateDevices (stop_tracks stream (acquire stream
     (log_call (getUserMedia probe_constraints) (log_call enumerateDevices s)))) =
   s\<lparr>calls := calls s @ [enumerateDevices, getUserMedia probe_constraints]
                @ map track_stop stream @ [enumerateDevices],
     readyState := fold (\<lambda>t m. m(t \<mapsto> ended)) stream
                     (fold (\<lambda>t m. m(t \<mapsto> live)) stream (readyState s))\<rparr>"
  by (simp add: stop_tracks_closed acquire_def log_call_def)

text \<open>
  Claim C8. When some descriptor of the first enumeration has a non-empty label,
  \<open>initDevices\<close> makes that one enumeration call, no probe, touches no track and groups
  the descriptors it got. When none has, it makes exactly one acquisition request, the
  generic audio and video one, whatever the platform answers; and when the probe and the
  second enumeration resolve, the calls are the enumeration, the probe, one stop for each
  track of the probe's stream and the second enumeration, in this order, no track of that
  stream is left running, and the groups and the selection are those of the second
  enumeration.
\<close>

theorem probe_once:
  "(list_ex (\<lambda>d. MediaDeviceInfo.label d \<noteq> []) allDevices \<longrightarrow>
      calls (initDevices (Resolved allDevices) probe second s) = calls s @ [enumerateDevices]
      \<and> readyState (initDevices (Resolved allDevices) probe second s) = readyState s
      \<and> devices (initDevices (Resolved allDevices) probe second s) = devices (publish allDevices s)
      \<and> selectedGroupId (initDevices (Resolved allDevices) probe second s) =
          selectedGroupId (publish allDevices s))
   \<and> (\<not> list_ex (\<lambda>d. MediaDeviceInfo.label d \<noteq> []) allDevices \<longrightarrow>
      acquisitions (initDevices (Resolved allDevices) probe second s) =
        acquisitions s @ [\<lparr>video = Flag True, audio = Flag True\<rparr>]
      \<and> calls (initDevices (Resolved allDevices) (Resolved stream) (Resolved allDevices') s) =
          calls s @ [enumerateDevices, getUserMedia \<lparr>video = Flag True, audio = Flag True\<rparr>]
            @ map track_stop stream @ [enumerateDevices]
      \<and> running (initDevices (Resolved allDevices) (Resolved stream) (Resolved allDevices') s) stream = []
      \<and> devices (initDevices (Resolved allDevices) (Resolved stream) (Resolved allDevices') s) =
          devices (publish allDevices' s)
      \<and> selectedGroupId (initDevices (Resolved allDevices) (Resolved stream) (Resolved allDevices') s) =
          selectedGroupId (publish allDevices' s))"
proof (intro conjI impI)
  assume l: "list_ex (\<lambda>d. MediaDeviceInfo.label d \<noteq> []) allDevices"
  then have i: "initDevices (Resolved allDevices) probe second s = publish allDevices (log_call enumerateDevices s)"
    by (simp add: initDevices_def)
  show "calls (initDevices (Resolved allDevices) probe second s) = calls s @ [enumerateDevices]"
    unfolding i by (simp add: calls_publish log_call_def)
  show "readyState (initDevices (Resolved allDevices) probe second s) = readyState s"
    unfolding i by (simp add: readyState_publish log_call_def)
  show "devices (initDevices (Resolved allDevices) probe second s) = devices (publish allDevices s)"
    unfolding i by (simp add: publish_def setError_def log_call_def split: settled.splits list.splits)
  show "selectedGroupId (initDevices (Resolved allDevices) probe second s) = selectedGroupId (publish allDevices s)"
    unfolding i by (simp add: publish_def setError_def log_call_def split: settled.splits list.splits)
next
  assume n: "\<not> list_ex (\<lambda>d. MediaDeviceInfo.label d \<noteq> []) allDevices"
  then have i: "initDevices (Resolved allDevices) (Resolved stream) (Resolved allDevices') s
      = publish allDevices'
          (s\<lparr>calls := calls s @ [enumerateDevices, getUserMedia probe_constraints]
                        @ map track_stop stream @ [enumerateDevices],
             readyState := fold (\<lambda>t m. m(t \<mapsto> ended)) stream
                             (fold (\<lambda>t m. m(t \<mapsto> live)) stream (readyState s))\<rparr>)"
    by (simp add: initDevices_def probe_steps_closed)
  show "acquisitions (initDevices (Resolved allDevices) probe second s) =
        acquisitions s @ [\<lparr>video = Flag True, audio = Flag True\<rparr>]"
    using n
    by (cases probe; cases second)
       (simp_all add: initDevices_def acquisitions_def calls_publish stop_tracks_closed
          acquire_def log_call_def setError_def probe_constraints_def comp_def)
  show "calls (initDevices (Resolved allDevices) (Resolved stream) (Resolved allDevices') s) =
          calls s @ [enumerateDevices, getUserMedia \<lparr>video = Flag True, audio = Flag True\<rparr>]
            @ map track_stop stream @ [enumerateDevices]"
    unfolding i by (simp add: calls_publish probe_constraints_def)
  show "running (initDevices (Resolved allDevices) (Resolved stream) (Resolved allDevices') s) stream = []"
    unfolding i by (simp add: running_def readyState_publish fold_upd_apply)
  show "devices (initDevices (Resolved allDevices) (Resolved stream) (Resolved allDevices') s) =
          devices (publish allDevices' s)"
    unfolding i by (simp add: publish_def setError_def split: settled.splits list.splits)
  show "selectedGroupId (initDevices (Resolved allDevices) (Resolved stream) (Resolved allDevices') s) =
          selectedGroupId (publish allDevices' s)"
    unfolding i by (simp add: publish_def setError_def split: settled.splits list.splits)
qed

text \<open>
  C8 on a first enumeration without labels, a probe yielding the tracks \<open>7\<close> and \<open>8\<close> and
  a labelled second enumeration; and on \<open>ready\<close>, whose enumeration was labelled.
\<close>

theorem probe_once_witness:
  "\<not> list_ex (\<lambda>d. MediaDeviceInfo.label d \<noteq> []) [camera ''usb'' [], microphone ''usb'' []]
   \<and> list_ex (\<lambda>d. MediaDeviceInfo.label d \<noteq> [])
        [camera ''usb'' ''HDMI Capture'', microphone ''usb'' ''HDMI Audio'']
   \<and> calls (initDevices (Resolved [camera ''usb'' [], microphone ''usb'' []]) (Resolved [7, 8])
            (Resolved [camera ''usb'' ''HDMI'', microphone ''usb'' ''Line'']) mounted) =
     [enumerateDevices, getUserMedia \<lparr>video = Flag True, audio = Flag True\<rparr>,
      track_stop 7, track_stop 8, enumerateDevices]
   \<and> running (initDevices (Resolved [camera ''usb'' [], microphone ''usb'' []]) (Resolved [7, 8])
            (Resolved [camera ''usb'' ''HDMI'', microphone ''usb'' ''Line'']) mounted) [7, 8] = []
   \<and> map DeviceGroup.label (devices (initDevices (Resolved [camera ''usb'' [], microphone ''usb'' []])
            (Resolved [7, 8]) (Resolved [camera ''usb'' ''HDMI'', microphone ''usb'' ''Line'']) mounted)) =
     [''HDMI'']
   \<and> calls ready = [enumerateDevices]"
  using probe_once
    [of "[camera ''usb'' [], microphone ''usb'' []]" "Resolved [7, 8]"
        "Resolved [camera ''usb'' ''HDMI'', microphone ''usb'' ''Line'']" mounted "[7, 8]"
        "[camera ''usb'' ''HDMI'', microphone ''usb'' ''Line'']"]
    probe_once
    [of "[camera ''usb'' ''HDMI Capture'', microphone ''usb'' ''HDMI Audio'']" "Rejected []" "Rejected []"
        mounted]
  by (simp add: session_defs discovery_defs state_defs)

section \<open>Starting a stream\<close>

lemma startStream_found:
  assumes "find (\<lambda>d. DeviceGroup.groupId d = selectedGroupId s) (devices s) = Some grp"
    and "DeviceGroup.video grp = Some v" and "DeviceGroup.audio grp = Some a"
  shows "startStream s = s\<lparr>calls := calls s @ [getUserMedia (constraints v a s)], pending := pending s + 1\<rparr>"
  using assms by (simp add: startStream_def log_call_def)

lemma startStream_not_found:
  assumes "selectedGroupId s \<notin> set (map DeviceGroup.groupId (devices s))"
  shows "startStream s = s"
proof -
  have "find (\<lambda>d. DeviceGroup.groupId d = selectedGroupId s) (devices s) = None"
    using assms by (force simp: find_None_iff)
  then show ?thesis by (simp add: startStream_def)
qed

text \<open>
  Claim C5. When the selection names a discovered group with video descriptor \<open>v\<close> and
  audio descriptor \<open>a\<close>, \<open>startStream\<close> issues one acquisition request: its video part
  pins the exact device id of \<open>v\<close> with the display's width and height as ideal values,
  its audio part pins the exact device id of \<open>a\<close> with echo cancellation, noise
  suppression and automatic gain control set to false.
\<close>

theorem start_constraints:
  assumes "find (\<lambda>d. DeviceGroup.groupId d = selectedGroupId s) (devices s) = Some grp"
    and "DeviceGroup.video grp = Some v" and "DeviceGroup.audio grp = Some a"
  shows "acquisitions (startStream s) = acquisitions s @
     [\<lparr>video = Constraints
         \<lparr>video_constraints.deviceId = exact (MediaDeviceInfo.deviceId v),
          width = ideal (screen_width s), height = ideal (screen_height s)\<rparr>,
       audio = Constraints
         \<lparr>audio_constraints.deviceId = exact (MediaDeviceInfo.deviceId a),
          echoCancellation = False, noiseSuppression = False, autoGainControl = False\<rparr>\<rparr>]"
  unfolding startStream_found[OF assms] by (simp add: acquisitions_def constraints_def)

text \<open>C5 in \<open>ready\<close>, on a 1920 by 1080 display.\<close>

theorem start_constraints_witness:
  "find (\<lambda>d. DeviceGroup.groupId d = selectedGroupId ready) (devices ready) =
     Some \<lparr>DeviceGroup.groupId = ''usb'', video = Some (camera ''usb'' ''HDMI Capture''),
            audio = Some (microphone ''usb'' ''HDMI Audio''), DeviceGroup.label = ''HDMI Capture''\<rparr>
   \<and> acquisitions (startStream ready) =
     [\<lparr>video = Constraints
         \<lparr>video_constraints.deviceId = exact ''cam-usb'', width = ideal 1920, height = ideal 1080\<rparr>,
       audio = Constraints
         \<lparr>audio_constraints.deviceId = exact ''mic-usb'',
          echoCancellation = False, noiseSuppression = False, autoGainControl = False\<rparr>\<rparr>]"
  using start_constraints[of ready
      "\<lparr>DeviceGroup.groupId = ''usb'', video = Some (camera ''usb'' ''HDMI Capture''),
        audio = Some (microphone ''usb'' ''HDMI Audio''), DeviceGroup.label = ''HDMI Capture''\<rparr>"
      "camera ''usb'' ''HDMI Capture''" "microphone ''usb'' ''HDMI Audio''"]
  by (simp add: session_defs discovery_defs state_defs)

text \<open>
  Claim C7. With no discovered groups, or with a selection that is the \<open>groupId\<close> of no
  discovered group, \<open>startStream\<close> returns the state as it is: no acquisition request is
  issued and the session state is the one before, so Idle stays Idle.
\<close>

theorem start_unknown_selection_noop:
  assumes "devices s = [] \<or> selectedGroupId s \<notin> set (map DeviceGroup.groupId (devices s))"
  shows "startStream s = s \<and> acquisitions (startStream s) = acquisitions s \<and>
         session_state (startStream s) = session_state s"
proof -
  have "selectedGroupId s \<notin> set (map DeviceGroup.groupId (devices s))"
    using assms by auto
  then show ?thesis by (simp add: startStream_not_found)
qed

text \<open>
  C7 in \<open>ready\<close> after the selector stored an id no group has, and in \<open>mounted\<close>, where
  nothing is discovered.
\<close>

theorem start_unknown_selection_noop_witness:
  "selectedGroupId (onChange ''gone'' ready) = ''gone''
   \<and> selectedGroupId (onChange ''gone'' ready)
       \<notin> set (map DeviceGroup.groupId (devices (onChange ''gone'' ready)))
   \<and> startStream (onChange ''gone'' ready) = onChange ''gone'' ready
   \<and> acquisitions (startStream (onChange ''gone'' ready)) = []
   \<and> session_state (startStream (onChange ''gone'' ready)) = Idle
   \<and> devices mounted = [] \<and> startStream mounted = mounted"
  using start_unknown_selection_noop[of "onChange ''gone'' ready"]
    start_unknown_selection_noop[of mounted]
  by (simp add: session_defs discovery_defs state_defs)

text \<open>
  Claim C1, as amended. \<open>startStream\<close> takes no account of the session state. While the
  session is Active the start button is not rendered, so a click changes nothing and
  issues no acquisition. Whenever the selection names a discovered group, \<open>startStream\<close>
  issues a further acquisition request, in every session state; while the session is
  Starting and no error is shown, a click on the start button does so too.
\<close>

theorem start_guarded_only_by_button:
  "(session_state s = Active \<longrightarrow> click_start s = s) \<and>
   (find (\<lambda>d. DeviceGroup.groupId d = selectedGroupId s) (devices s) = Some grp \<and>
    DeviceGroup.video grp = Some v \<and> DeviceGroup.audio grp = Some a \<longrightarrow>
      acquisitions (startStream s) = acquisitions s @ [constraints v a s] \<and>
      (session_state s = Starting \<and> error s = None \<longrightarrow>
         acquisitions (click_start s) = acquisitions s @ [constraints v a s]))"
proof (intro conjI impI)
  assume "session_state s = Active"
  then have "isStreaming s" by (simp add: session_state_def split: if_splits)
  then show "click_start s = s" by (simp add: click_start_def start_btn_enabled_def)
next
  assume f: "find (\<lambda>d. DeviceGroup.groupId d = selectedGroupId s) (devices s) = Some grp \<and>
    DeviceGroup.video grp = Some v \<and> DeviceGroup.audio grp = Some a"
  then show a: "acquisitions (startStream s) = acquisitions s @ [constraints v a s]"
    by (simp add: startStream_found acquisitions_def)
  assume st: "session_state s = Starting \<and> error s = None"
  then have "\<not> isStreaming s" by (simp add: session_state_def split: if_splits)
  moreover have "devices s \<noteq> []" using f by auto
  ultimately have "start_btn_enabled s" using st by (simp add: start_btn_enabled_def)
  then show "acquisitions (click_start s) = acquisitions s @ [constraints v a s]"
    using a by (simp add: click_start_def)
qed

text \<open>
  C1 in \<open>streaming\<close>, where a click does nothing, and in the state after one click in
  \<open>ready\<close>, where a second click issues a second request.
\<close>

theorem start_guarded_only_by_button_witness:
  "session_state streaming = Active \<and> click_start streaming = streaming
   \<and> session_state (click_start ready) = Starting \<and> error (click_start ready) = None
   \<and> find (\<lambda>d. DeviceGroup.groupId d = selectedGroupId (click_start ready)) (devices (click_start ready)) =
       Some \<lparr>DeviceGroup.groupId = ''usb'', video = Some (camera ''usb'' ''HDMI Capture''),
              audio = Some (microphone ''usb'' ''HDMI Audio''), DeviceGroup.label = ''HDMI Capture''\<rparr>
   \<and> acquisitions (click_start ready) = [usb_constraints]
   \<and> acquisitions (click_start (click_start ready)) = [usb_constraints, usb_constraints]"
  using start_guarded_only_by_button[of streaming]
    start_guarded_only_by_button[of "click_start ready"
      "\<lparr>DeviceGroup.groupId = ''usb'', video = Some (camera ''usb'' ''HDMI Capture''),
        audio = Some (microphone ''usb'' ''HDMI Audio''), DeviceGroup.label = ''HDMI Capture''\<rparr>"
      "camera ''usb'' ''HDMI Capture''" "microphone ''usb'' ''HDMI Audio''"]
  by (simp add: session_defs discovery_defs state_defs)

text \<open>
  C1 as stated fails. A second click while the first acquisition is pending, and a call
  of \<open>startStream\<close> while the session is Active, each issue a second acquisition request.
\<close>

theorem start_while_starting_or_active_acquires_again:
  "session_state ready = Idle
   \<and> session_state (click_start ready) = Starting
   \<and> acquisitions (click_start ready) = [usb_constraints]
   \<and> acquisitions (click_start (click_start ready)) = [usb_constraints, usb_constraints]
   \<and> session_state streaming = Active
   \<and> acquisitions streaming = [usb_constraints]
   \<and> acquisitions (startStream streaming) = [usb_constraints, usb_constraints]"
  by (simp add: session_defs discovery_defs state_defs)

text \<open>
  Claim C3, as amended. A rejected acquisition changes neither \<open>isStreaming\<close>, the sink
  binding nor the state of any track. So a start made in the Idle state with an unbound
  sink, whose acquisition is rejected while no other start is in flight, ends in the Idle
  state with the sink unbound and every track as it was. With the sink mounted, a
  resolved acquisition binds the stream to the sink and sets \<open>isStreaming\<close> in one step,
  with every track of the stream running.
\<close>

theorem failed_start_keeps_session:
  "isStreaming (startStream_settled (Rejected m) s) = isStreaming s
   \<and> sink (startStream_settled (Rejected m) s) = sink s
   \<and> readyState (startStream_settled (Rejected m) s) = readyState s
   \<and> (session_state s = Idle \<and> sink s = None \<and>
       find (\<lambda>d. DeviceGroup.groupId d = selectedGroupId s) (devices s) = Some grp \<and>
       DeviceGroup.video grp = Some v \<and> DeviceGroup.audio grp = Some a \<longrightarrow>
         session_state (startStream s) = Starting
         \<and> session_state (startStream_settled (Rejected m) (startStream s)) = Idle
         \<and> sink (startStream_settled (Rejected m) (startStream s)) = None
         \<and> readyState (startStream_settled (Rejected m) (startStream s)) = readyState s)
   \<and> (videoRef s = Some e \<longrightarrow>
         sink (startStream_settled (Resolved stream) s) = Some stream
         \<and> isStreaming (startStream_settled (Resolved stream) s)
         \<and> running (startStream_settled (Resolved stream) s) stream = stream)"
proof (intro conjI impI)
  show "isStreaming (startStream_settled (Rejected m) s) = isStreaming s"
    and "sink (startStream_settled (Rejected m) s) = sink s"
    and "readyState (startStream_settled (Rejected m) s) = readyState s"
    by (simp_all add: startStream_settled_def log_call_def sink_def)
next
  assume i: "session_state s = Idle \<and> sink s = None \<and>
       find (\<lambda>d. DeviceGroup.groupId d = selectedGroupId s) (devices s) = Some grp \<and>
       DeviceGroup.video grp = Some v \<and> DeviceGroup.audio grp = Some a"
  then have idle: "\<not> isStreaming s" "pending s = 0"
    by (simp_all add: session_state_def split: if_splits)
  have st: "startStream s = s\<lparr>calls := calls s @ [getUserMedia (constraints v a s)], pending := pending s + 1\<rparr>"
    using i by (simp add: startStream_found)
  show "session_state (startStream s) = Starting"
    unfolding st using idle by (simp add: session_state_def)
  show "session_state (startStream_settled (Rejected m) (startStream s)) = Idle"
    unfolding st using idle by (simp add: session_state_def startStream_settled_def log_call_def)
  show "sink (startStream_settled (Rejected m) (startStream s)) = None"
    unfolding st using i by (simp add: startStream_settled_def log_call_def sink_def)
  show "readyState (startStream_settled (Rejected m) (startStream s)) = readyState s"
    unfolding st by (simp add: startStream_settled_def log_call_def)
next
  assume e: "videoRef s = Some e"
  then show "sink (startStream_settled (Resolved stream) s) = Some stream"
    and "isStreaming (startStream_settled (Resolved stream) s)"
    by (simp_all add: startStream_settled_def sink_def acquire_def)
  show "running (startStream_settled (Resolved stream) s) stream = stream"
    using e by (simp add: startStream_settled_def running_def acquire_def fold_upd_apply)
qed

text \<open>
  C3 in \<open>ready\<close>: a start whose acquisition is rejected ends Idle and unbound with no
  track running, and one whose acquisition resolves has its stream bound and running.
\<close>

theorem failed_start_keeps_session_witness:
  "session_state ready = Idle \<and> sink ready = None
   \<and> find (\<lambda>d. DeviceGroup.groupId d = selectedGroupId ready) (devices ready) =
       Some \<lparr>DeviceGroup.groupId = ''usb'', video = Some (camera ''usb'' ''HDMI Capture''),
              audio = Some (microphone ''usb'' ''HDMI Audio''), DeviceGroup.label = ''HDMI Capture''\<rparr>
   \<and> session_state (startStream_settled (Rejected ''busy'') (startStream ready)) = Idle
   \<and> sink (startStream_settled (Rejected ''busy'') (startStream ready)) = None
   \<and> running (startStream_settled (Rejected ''busy'') (startStream ready)) [0, 1] = []
   \<and> videoRef (startStream ready) = Some \<lparr>srcObject = None\<rparr>
   \<and> sink (startStream_settled (Resolved [0, 1]) (startStream ready)) = Some [0, 1]
   \<and> running (startStream_settled (Resolved [0, 1]) (startStream ready)) [0, 1] = [0, 1]"
  using failed_start_keeps_session[of "''busy''" ready
      "\<lparr>DeviceGroup.groupId = ''usb'', video = Some (camera ''usb'' ''HDMI Capture''),
        audio = Some (microphone ''usb'' ''HDMI Audio''), DeviceGroup.label = ''HDMI Capture''\<rparr>"
      "camera ''usb'' ''HDMI Capture''" "microphone ''usb'' ''HDMI Audio''"]
    failed_start_keeps_session[of "''busy''" "startStream ready" _ _ _ "\<lparr>srcObject = None\<rparr>" "[0, 1]"]
  by (simp add: session_defs discovery_defs state_defs)

text \<open>
  C3 as stated fails when two starts overlap. After two clicks in \<open>ready\<close>, the first
  acquisition resolving and the second being rejected, the second start ends with the
  session Active, the sink bound and both tracks running. When both resolve, the second
  start ends with the tracks of the first stream running and not bound to the sink.
\<close>

theorem failed_overlapping_start_ends_active:
  "session_state ready = Idle
   \<and> session_state (click_start ready) = Starting
   \<and> session_state (startStream_settled (Rejected ''busy'')
        (startStream_settled (Resolved [0, 1]) (click_start (click_start ready)))) = Active
   \<and> sink (startStream_settled (Rejected ''busy'')
        (startStream_settled (Resolved [0, 1]) (click_start (click_start ready)))) = Some [0, 1]
   \<and> running (startStream_settled (Rejected ''busy'')
        (startStream_settled (Resolved [0, 1]) (click_start (click_start ready)))) [0, 1] = [0, 1]
   \<and> sink (startStream_settled (Resolved [2, 3])
        (startStream_settled (Resolved [0, 1]) (click_start (click_start ready)))) = Some [2, 3]
   \<and> running (startStream_settled (Resolved [2, 3])
        (startStream_settled (Resolved [0, 1]) (click_start (click_start ready)))) [0, 1] = [0, 1]"
  by (simp add: session_defs discovery_defs state_defs)

section \<open>Stopping a stream\<close>

lemma handleFullscreenChange_stops:
  assumes "\<not> fullscreenElement s"
  shows "sink (handleFullscreenChange s) = None"
    and "\<not> isStreaming (handleFullscreenChange s)"
    and "running (handleFullscreenChange s) (current_tracks s) = []"
    and "calls (handleFullscreenChange s) = calls s @ map track_stop (current_tracks s)"
proof -
  show "sink (handleFullscreenChange s) = None"
    using assms
    by (simp add: handleFullscreenChange_def sink_def stop_tracks_closed split: option.splits)
  show "\<not> isStreaming (handleFullscreenChange s)"
    using assms
    by (simp add: handleFullscreenChange_def stop_tracks_closed split: option.splits)
  show "running (handleFullscreenChange s) (current_tracks s) = []"
    using assms
    by (simp add: handleFullscreenChange_def running_def current_tracks_def sink_def
        stop_tracks_closed fold_upd_apply split: option.splits)
  show "calls (handleFullscreenChange s) = calls s @ map track_stop (current_tracks s)"
    using assms
    by (simp add: handleFullscreenChange_def current_tracks_def sink_def
        stop_tracks_closed split: option.splits)
qed

text \<open>
  Claim C4, as amended. The code stops a session in one place, the listener of the
  full-screen notification. Run while no element is full screen, it leaves the sink
  unbound, no track of the stream that was bound running and \<open>isStreaming\<close> false, having
  called \<open>stop\<close> once on each track of that stream. A pause of the sink while the sink is
  full screen leaves full screen and queues a notification, and the delivery of that
  notification ends in the same way.
\<close>

theorem stop_releases_stream:
  "(\<not> fullscreenElement s \<longrightarrow>
      sink (handleFullscreenChange s) = None
      \<and> running (handleFullscreenChange s) (current_tracks s) = []
      \<and> \<not> isStreaming (handleFullscreenChange s)
      \<and> calls (handleFullscreenChange s) = calls s @ map track_stop (current_tracks s))
   \<and> (fullscreenElement s \<longrightarrow>
      \<not> fullscreenElement (onPause s)
      \<and> notifications (onPause s) = notifications s + 1
      \<and> sink (fullscreenchange (onPause s)) = None
      \<and> running (fullscreenchange (onPause s)) (current_tracks s) = []
      \<and> \<not> isStreaming (fullscreenchange (onPause s))
      \<and> calls (fullscreenchange (onPause s)) =
          calls s @ [exitFullscreen] @ map track_stop (current_tracks s))"
proof (intro conjI impI)
  assume n: "\<not> fullscreenElement s"
  from handleFullscreenChange_stops[OF n]
  show "sink (handleFullscreenChange s) = None"
    and "running (handleFullscreenChange s) (current_tracks s) = []"
    and "\<not> isStreaming (handleFullscreenChange s)"
    and "calls (handleFullscreenChange s) = calls s @ map track_stop (current_tracks s)"
    by simp_all
next
  assume f: "fullscreenElement s"
  define s1 where "s1 = (onPause s)\<lparr>notifications := notifications (onPause s) - 1\<rparr>"
  have p: "onPause s = (log_call exitFullscreen s)\<lparr>fullscreenElement := False, notifications := notifications s + 1\<rparr>"
    using f by (simp add: onPause_def)
  have s1: "\<not> fullscreenElement s1" "current_tracks s1 = current_tracks s" "calls s1 = calls s @ [exitFullscreen]"
    by (simp_all add: s1_def p log_call_def current_tracks_def sink_def)
  have d: "fullscreenchange (onPause s) = handleFullscreenChange s1"
    by (simp add: fullscreenchange_def s1_def)
  show "\<not> fullscreenElement (onPause s)" by (simp add: p)
  show "notifications (onPause s) = notifications s + 1" by (simp add: p log_call_def)
  show "sink (fullscreenchange (onPause s)) = None"
    unfolding d by (rule handleFullscreenChange_stops(1)[OF s1(1)])
  show "\<not> isStreaming (fullscreenchange (onPause s))"
    unfolding d by (rule handleFullscreenChange_stops(2)[OF s1(1)])
  show "running (fullscreenchange (onPause s)) (current_tracks s) = []"
    unfolding d using handleFullscreenChange_stops(3)[OF s1(1)] by (simp add: s1(2))
  show "calls (fullscreenchange (onPause s)) = calls s @ [exitFullscreen] @ map track_stop (current_tracks s)"
    unfolding d using handleFullscreenChange_stops(4)[OF s1(1)] by (simp add: s1(2,3))
qed

text \<open>
  C4 in \<open>fullscreen\<close>, where the tracks \<open>0\<close> and \<open>1\<close> are bound and running: after a
  pause, and after a notification that finds no element full screen.
\<close>

theorem stop_releases_stream_witness:
  "current_tracks fullscreen = [0, 1] \<and> running fullscreen [0, 1] = [0, 1]
   \<and> fullscreenElement fullscreen
   \<and> sink (fullscreenchange (onPause fullscreen)) = None
   \<and> running (fullscreenchange (onPause fullscreen)) [0, 1] = []
   \<and> \<not> fullscreenElement (fullscreen\<lparr>fullscreenElement := False\<rparr>)
   \<and> sink (handleFullscreenChange (fullscreen\<lparr>fullscreenElement := False\<rparr>)) = None
   \<and> running (handleFullscreenChange (fullscreen\<lparr>fullscreenElement := False\<rparr>)) [0, 1] = []"
  using stop_releases_stream[of fullscreen]
    stop_releases_stream[of "fullscreen\<lparr>fullscreenElement := False\<rparr>"]
  by (simp add: session_defs discovery_defs state_defs)

text \<open>
  C4 as stated fails for a pause of a sink that is not full screen. In \<open>windowed\<close> the
  session is Active with the tracks \<open>0\<close> and \<open>1\<close> bound and running; a pause there only
  issues the exit request: no notification is queued, so no stop follows, and the sink
  stays bound with both tracks running.
\<close>

theorem pause_outside_fullscreen_stops_nothing:
  "session_state windowed = Active
   \<and> \<not> fullscreenElement windowed
   \<and> sink windowed = Some [0, 1]
   \<and> running windowed [0, 1] = [0, 1]
   \<and> notifications windowed = 0
   \<and> calls (onPause windowed) = calls windowed @ [exitFullscreen]
   \<and> notifications (onPause windowed) = 0
   \<and> session_state (onPause windowed) = Active
   \<and> sink (onPause windowed) = Some [0, 1]
   \<and> running (onPause windowed) [0, 1] = [0, 1]"
  by (simp add: session_defs discovery_defs state_defs)

end
